theory Spec2Isabelle
  imports Main "HOL-Library.Sublist"
begin

section \<open>Text\<close>

text \<open>
  A Python \<^verbatim>\<open>str\<close> is modelled as a \<^typ>\<open>string\<close>. A \<^typ>\<open>char\<close> has 256 values; they
  stand for the code points U+0000 to U+00FF, and every character class below is the
  class Python 3 gives on that range (\<^verbatim>\<open>re\<close> on \<^verbatim>\<open>str\<close> patterns is Unicode aware, so
  \<^verbatim>\<open>\w\<close>, \<^verbatim>\<open>\s\<close>, \<^verbatim>\<open>str.strip\<close>, \<^verbatim>\<open>str.isdigit\<close> and \<^verbatim>\<open>str.lower\<close> reach beyond ASCII).
  Text with code points from U+0100 on is outside the model.
\<close>

definition ord :: "char \<Rightarrow> nat" where
  "ord c = of_char c"

definition in_range :: "nat \<Rightarrow> nat \<Rightarrow> char \<Rightarrow> bool" where
  "in_range lo hi c = (lo \<le> ord c \<and> ord c \<le> hi)"

definition is_decimal :: "char \<Rightarrow> bool" where
  \<comment> \<open>\<^verbatim>\<open>\d\<close>: the decimal digits; below U+0100 these are 0 to 9\<close>
  "is_decimal c = in_range 48 57 c"

definition is_upper_az :: "char \<Rightarrow> bool" where
  \<comment> \<open>\<^verbatim>\<open>[A-Z]\<close>\<close>
  "is_upper_az c = in_range 65 90 c"

definition is_alpha_az :: "char \<Rightarrow> bool" where
  \<comment> \<open>\<^verbatim>\<open>[A-Za-z]\<close>\<close>
  "is_alpha_az c = (in_range 65 90 c \<or> in_range 97 122 c)"

definition py_isspace :: "char \<Rightarrow> bool" where
  \<comment> \<open>\<^verbatim>\<open>\s\<close> and the characters \<^verbatim>\<open>str.strip()\<close> removes\<close>
  "py_isspace c = (in_range 9 13 c \<or> in_range 28 32 c \<or> ord c = 133 \<or> ord c = 160)"

definition py_isdigit_ch :: "char \<Rightarrow> bool" where
  \<comment> \<open>one character of \<^verbatim>\<open>str.isdigit()\<close>: the decimals and the superscripts 1, 2, 3\<close>
  "py_isdigit_ch c = (in_range 48 57 c \<or> ord c = 178 \<or> ord c = 179 \<or> ord c = 185)"

definition is_word :: "char \<Rightarrow> bool" where
  \<comment> \<open>\<^verbatim>\<open>\w\<close>: alphanumeric (\<^verbatim>\<open>str.isalnum\<close>) or the underscore\<close>
  "is_word c =
     (in_range 48 57 c \<or> in_range 65 90 c \<or> ord c = 95 \<or> in_range 97 122 c \<or>
      ord c = 170 \<or> in_range 178 179 c \<or> ord c = 181 \<or> in_range 185 186 c \<or>
      in_range 188 190 c \<or> in_range 192 214 c \<or> in_range 216 246 c \<or>
      in_range 248 255 c)"

definition lower_ch :: "char \<Rightarrow> char" where
  "lower_ch c =
     (if in_range 65 90 c \<or> in_range 192 214 c \<or> in_range 216 222 c
      then char_of (ord c + 32) else c)"

definition py_lower :: "string \<Rightarrow> string" where
  "py_lower s = map lower_ch s"

definition py_strip :: "string \<Rightarrow> string" where
  "py_strip s = rev (dropWhile py_isspace (rev (dropWhile py_isspace s)))"

definition py_isdigit :: "string \<Rightarrow> bool" where
  "py_isdigit s = (s \<noteq> [] \<and> list_all py_isdigit_ch s)"

definition startswith :: "string \<Rightarrow> string \<Rightarrow> bool" where
  "startswith s p = (take (length p) s = p)"

definition endswith :: "string \<Rightarrow> string \<Rightarrow> bool" where
  "endswith s p = (length p \<le> length s \<and> drop (length s - length p) s = p)"

fun contains :: "string \<Rightarrow> string \<Rightarrow> bool" where
  \<comment> \<open>\<^verbatim>\<open>p in s\<close>\<close>
  "contains [] p = (p = [])"
| "contains (x # xs) p = (startswith (x # xs) p \<or> contains xs p)"

fun split_on :: "char \<Rightarrow> string \<Rightarrow> string list" where
  \<comment> \<open>\<^verbatim>\<open>s.split(sep)\<close> for a separator of one character\<close>
  "split_on sep [] = [[]]"
| "split_on sep (x # xs) =
     (if x = sep then [] # split_on sep xs
      else (case split_on sep xs of [] \<Rightarrow> [[x]] | y # ys \<Rightarrow> (x # y) # ys))"

section \<open>Regular expressions\<close>

text \<open>
  The patterns of the program use character classes, greedy repetition of a class,
  optional groups, alternation, \<^verbatim>\<open>\b\<close>, \<^verbatim>\<open>^\<close> and \<^verbatim>\<open>$\<close>. A cursor is the character
  before the position (none at the start of the text) and the text that remains.
  \<open>ms r c\<close> lists the cursors where a match of \<open>r\<close> begun at \<open>c\<close> can end, in the order
  in which Python's backtracking matcher tries them, so its head is the match that
  \<^verbatim>\<open>re\<close> reports.
\<close>

type_synonym cursor = "char option \<times> string"

datatype rx =
    Cls "char \<Rightarrow> bool"
  | Many "char \<Rightarrow> bool" nat
  | Opt rx
  | Alt rx rx
  | Seq rx rx
  | WordB
  | Bos
  | Eos

fun many :: "(char \<Rightarrow> bool) \<Rightarrow> nat \<Rightarrow> cursor \<Rightarrow> cursor list" where
  \<comment> \<open>at least \<open>n\<close> characters of the class, the longest run first\<close>
  "many p n (prev, []) = (if n = 0 then [(prev, [])] else [])"
| "many p n (prev, x # xs) =
     (if p x then many p (n - 1) (Some x, xs) else []) @
     (if n = 0 then [(prev, x # xs)] else [])"

definition word_at :: "char option \<Rightarrow> bool" where
  "word_at c = (case c of None \<Rightarrow> False | Some x \<Rightarrow> is_word x)"

definition peek :: "string \<Rightarrow> char option" where
  "peek s = (case s of [] \<Rightarrow> None | x # _ \<Rightarrow> Some x)"

fun ms :: "rx \<Rightarrow> cursor \<Rightarrow> cursor list" where
  "ms (Cls p) (prev, []) = []"
| "ms (Cls p) (prev, x # xs) = (if p x then [(Some x, xs)] else [])"
| "ms (Many p n) c = many p n c"
| "ms (Opt r) c = ms r c @ [c]"
| "ms (Alt r1 r2) c = ms r1 c @ ms r2 c"
| "ms (Seq r1 r2) c = concat (map (ms r2) (ms r1 c))"
| "ms WordB (prev, s) = (if word_at prev \<noteq> word_at (peek s) then [(prev, s)] else [])"
| "ms Bos (prev, s) = (if prev = None then [(prev, s)] else [])"
| "ms Eos (prev, s) = (if s = [] \<or> s = [CHR 0x0A] then [(prev, s)] else [])"

definition consumed :: "string \<Rightarrow> cursor \<Rightarrow> string" where
  \<comment> \<open>the text between the start of \<open>s\<close> and a cursor inside it\<close>
  "consumed s c = take (length s - length (snd c)) s"

definition re_match :: "rx \<Rightarrow> string \<Rightarrow> string option" where
  "re_match r s = (case ms r (None, s) of [] \<Rightarrow> None | c # _ \<Rightarrow> Some (consumed s c))"

definition re_fullmatch :: "rx \<Rightarrow> string \<Rightarrow> bool" where
  "re_fullmatch r s = (\<exists>c \<in> set (ms r (None, s)). snd c = [])"

fun re_search_from :: "rx \<Rightarrow> char option \<Rightarrow> string \<Rightarrow> string option" where
  "re_search_from r prev [] =
     (case ms r (prev, []) of [] \<Rightarrow> None | c # _ \<Rightarrow> Some [])"
| "re_search_from r prev (x # xs) =
     (case ms r (prev, x # xs) of
        [] \<Rightarrow> re_search_from r (Some x) xs
      | c # _ \<Rightarrow> Some (consumed (x # xs) c))"

definition re_search :: "rx \<Rightarrow> string \<Rightarrow> string option" where
  \<comment> \<open>the text of the leftmost match (group 0), if any\<close>
  "re_search r s = re_search_from r None s"

datatype piece = Lit char | Hit string

text \<open>
  \<^verbatim>\<open>findall\<close> and \<^verbatim>\<open>sub\<close> scan the text from left to right: at each position the first
  match is taken and the scan goes on where it ends; where nothing matches, one
  character is passed over. After an empty match the next match at the same position
  must be non-empty (\<open>adv\<close>), as in Python 3.7 and later.
\<close>

function scan :: "rx \<Rightarrow> bool \<Rightarrow> cursor \<Rightarrow> piece list" where
  "scan r adv (prev, s) =
     (case filter (\<lambda>c. \<not> adv \<or> length (snd c) < length s) (ms r (prev, s)) of
        [] \<Rightarrow> (case s of [] \<Rightarrow> [] | x # xs \<Rightarrow> Lit x # scan r False (Some x, xs))
      | c # _ \<Rightarrow>
          if length (snd c) < length s then Hit (consumed s c) # scan r False c
          else if adv then []
          else Hit [] # scan r True (prev, s))"
  by pat_completeness auto
termination
  by (relation "measures [\<lambda>(r, adv, c). length (snd c), \<lambda>(r, adv, c). if adv then 0 else 1]")
     auto

declare scan.simps [simp del]

fun hits :: "piece list \<Rightarrow> string list" where
  "hits [] = []"
| "hits (Lit x # ps) = hits ps"
| "hits (Hit m # ps) = m # hits ps"

fun replace_hits :: "string \<Rightarrow> piece list \<Rightarrow> string" where
  "replace_hits repl [] = []"
| "replace_hits repl (Lit x # ps) = x # replace_hits repl ps"
| "replace_hits repl (Hit m # ps) = repl @ replace_hits repl ps"

definition re_findall :: "rx \<Rightarrow> string \<Rightarrow> string list" where
  "re_findall r s = hits (scan r False (None, s))"

definition re_sub :: "rx \<Rightarrow> string \<Rightarrow> string \<Rightarrow> string" where
  "re_sub r repl s = replace_hits repl (scan r False (None, s))"

section \<open>validators.py\<close>

definition chr_eq :: "char \<Rightarrow> rx" where
  "chr_eq a = Cls (\<lambda>c. c = a)"

definition email_local_ch :: "char \<Rightarrow> bool" where
  \<comment> \<open>\<^verbatim>\<open>[A-Za-z0-9._%+-]\<close>\<close>
  "email_local_ch c = (is_alpha_az c \<or> is_decimal c \<or> c \<in> set ''._%+-'')"

definition email_domain_ch :: "char \<Rightarrow> bool" where
  \<comment> \<open>\<^verbatim>\<open>[A-Za-z0-9.-]\<close>\<close>
  "email_domain_ch c = (is_alpha_az c \<or> is_decimal c \<or> c \<in> set ''.-'')"

definition EMAIL_REGEX :: rx where
  \<comment> \<open>\<^verbatim>\<open>\b[A-Za-z0-9._%+-]+@[A-Za-z0-9.-]+\.[A-Za-z]{2,}\b\<close>; the flag \<^verbatim>\<open>re.IGNORECASE\<close>
      adds no character below U+0100 to these classes\<close>
  "EMAIL_REGEX =
     Seq WordB (Seq (Many email_local_ch 1) (Seq (chr_eq CHR ''@'')
       (Seq (Many email_domain_ch 1) (Seq (chr_eq CHR ''.'') (Seq (Many is_alpha_az 2) WordB)))))"

definition phone_sep :: "char \<Rightarrow> bool" where
  \<comment> \<open>\<^verbatim>\<open>[\s.-]\<close>\<close>
  "phone_sep c = (py_isspace c \<or> c = CHR ''.'' \<or> c = CHR ''-'')"

definition digits3 :: rx where
  "digits3 = Seq (Cls is_decimal) (Seq (Cls is_decimal) (Cls is_decimal))"

definition US_PHONE_REGEX :: rx where
  \<comment> \<open>\<^verbatim>\<open>^(?:\+1[\s.-]?)?(?:\(\d{3}\)|\d{3})[\s.-]?\d{3}[\s.-]?\d{4}$\<close>\<close>
  "US_PHONE_REGEX =
     Seq Bos (Seq (Opt (Seq (chr_eq CHR ''+'') (Seq (chr_eq CHR ''1'') (Opt (Cls phone_sep)))))
       (Seq (Alt (Seq (chr_eq CHR ''('') (Seq digits3 (chr_eq CHR '')''))) digits3)
         (Seq (Opt (Cls phone_sep)) (Seq digits3 (Seq (Opt (Cls phone_sep))
           (Seq digits3 (Seq (Cls is_decimal) Eos)))))))"

definition is_valid_us_phone :: "string \<Rightarrow> bool" where
  "is_valid_us_phone v =
     (if v = [] then False
      else if startswith v ''+1'' \<and> length v = 12 \<and> py_isdigit (drop 2 v) then True
      else re_match US_PHONE_REGEX (py_strip v) \<noteq> None)"

definition normalize_us_phone :: "string \<Rightarrow> string option" where
  "normalize_us_phone v =
     (if v = [] then None
      else
        let digits = re_sub (Cls (\<lambda>c. \<not> is_decimal c)) [] v;
            digits = (if length digits = 11 \<and> startswith digits ''1'' then drop 1 digits
                      else digits)
        in if length digits \<noteq> 10 then None
           else let formatted = ''+1'' @ digits
                in if is_valid_us_phone formatted then Some formatted else None)"

definition is_image_name :: "string \<Rightarrow> bool" where
  \<comment> \<open>\<^verbatim>\<open>email_lower.endswith((".png", ".jpg", ".jpeg", ".svg"))\<close>\<close>
  "is_image_name e =
     (endswith e ''.png'' \<or> endswith e ''.jpg'' \<or> endswith e ''.jpeg'' \<or> endswith e ''.svg'')"

fun first_valid :: "string list \<Rightarrow> string option" where
  \<comment> \<open>the loop over the matches\<close>
  "first_valid [] = None"
| "first_valid (email # rest) =
     (let email_lower = py_lower email
      in if is_image_name email_lower then first_valid rest else Some email_lower)"

definition extract_first_valid_email :: "string \<Rightarrow> string option" where
  "extract_first_valid_email t =
     (if t = [] then None else first_valid (re_findall EMAIL_REGEX t))"

definition is_valid_email :: "string \<Rightarrow> bool" where
  "is_valid_email email = (email \<noteq> [] \<and> re_fullmatch EMAIL_REGEX (py_strip email))"

section \<open>The environment\<close>

text \<open>
  The program talks to a browser page (Playwright), to web servers (\<^verbatim>\<open>requests\<close>), and
  uses an HTML parser (BeautifulSoup) and \<^verbatim>\<open>urllib.parse\<close>. None of them is code of the
  program; a \<open>world\<close> gives what each of them answers. An answer depends on the request
  only (a world asked twice answers the same), and every property below holds for every
  world.
\<close>

record world =
  http_get :: "string \<Rightarrow> (int \<times> string) option"
    \<comment> \<open>\<^verbatim>\<open>session.get(url)\<close>: the status code and the body, none for a \<^verbatim>\<open>RequestException\<close>\<close>
  anchors :: "string \<Rightarrow> (string \<times> string) list"
    \<comment> \<open>\<^verbatim>\<open>soup.select("a[href]")\<close> of a page: each link's \<^verbatim>\<open>href\<close> and its \<^verbatim>\<open>get_text(" ", strip=True)\<close>\<close>
  urljoin :: "string \<Rightarrow> string \<Rightarrow> string"
  url_netloc :: "string \<Rightarrow> string"
  url_path :: "string \<Rightarrow> string"
  url_scheme :: "string \<Rightarrow> string"
  page_loads :: "string \<Rightarrow> bool"
    \<comment> \<open>whether \<^verbatim>\<open>page.goto\<close> of a place returns; otherwise it raises\<close>
  inner_text :: "string \<Rightarrow> string \<Rightarrow> string option"
    \<comment> \<open>on the page of a place, the text of the first element of a selector; none when
        there is no such element or the read times out\<close>
  href_attr :: "string \<Rightarrow> string \<Rightarrow> string option"
    \<comment> \<open>likewise its \<^verbatim>\<open>href\<close> attribute\<close>
  search_input :: "string \<Rightarrow> bool"
    \<comment> \<open>whether \<^verbatim>\<open>_get_search_input\<close> finds the search box before a query is typed\<close>
  cards :: "string \<Rightarrow> nat \<Rightarrow> string option list"
    \<comment> \<open>the \<^verbatim>\<open>href\<close> attributes of the result cards shown for a query in a round\<close>
  set_order :: "string set \<Rightarrow> string list"
    \<comment> \<open>the order in which \<^verbatim>\<open>list(urls)\<close> enumerates a set\<close>

section \<open>email\_finder.py\<close>

definition CONTACT_KEYWORDS :: "string list" where
  "CONTACT_KEYWORDS = [''contact'', ''impressum'', ''about'', ''support'']"

definition fetch_html :: "world \<Rightarrow> string \<Rightarrow> string option" where
  "fetch_html w url =
     (case http_get w url of
        None \<Rightarrow> None
      | Some (status_code, body) \<Rightarrow> if status_code \<ge> 400 then None else Some body)"

definition normalize_url :: "string \<Rightarrow> string option" where
  "normalize_url url =
     (let candidate = py_strip url
      in if candidate = [] then None
         else if \<not> (startswith candidate ''http://'' \<or> startswith candidate ''https://'')
              then Some (''https://'' @ candidate)
              else Some candidate)"

definition after_first :: "char \<Rightarrow> string \<Rightarrow> string" where
  \<comment> \<open>\<^verbatim>\<open>s.split(sep, 1)[-1]\<close>\<close>
  "after_first sep s = (case dropWhile (\<lambda>c. c \<noteq> sep) s of [] \<Rightarrow> s | _ # rest \<Rightarrow> rest)"

definition before_first :: "char \<Rightarrow> string \<Rightarrow> string" where
  \<comment> \<open>\<^verbatim>\<open>s.split(sep)[0]\<close>, and \<^verbatim>\<open>s.split(sep, 1)[0]\<close>\<close>
  "before_first sep s = takeWhile (\<lambda>c. c \<noteq> sep) s"

definition mailto_address :: "string \<Rightarrow> string" where
  "mailto_address href = py_lower (py_strip (before_first CHR ''?'' (after_first CHR '':'' href)))"

fun scan_links ::
  "world \<Rightarrow> string \<Rightarrow> string \<Rightarrow> (string \<times> string) list \<Rightarrow> string list
   \<Rightarrow> string option \<times> string list"
where
  \<comment> \<open>the loop over the links of one page: an address to return, if one is met, and the
      queue as the loop leaves it\<close>
  "scan_links w url netloc [] queue = (None, queue)"
| "scan_links w url netloc ((raw_href, link_text) # links) queue =
     (let href = py_strip raw_href
      in if href = [] then scan_links w url netloc links queue
         else if startswith (py_lower href) ''mailto:'' \<and> is_valid_email (mailto_address href)
         then (Some (mailto_address href), queue)
         else
           let next_url = urljoin w url href
           in if url_netloc w next_url \<noteq> netloc then scan_links w url netloc links queue
              else
                let anchor_text = py_lower link_text;
                    target = py_lower (url_path w next_url @ '' '' @ anchor_text)
                in if list_ex (\<lambda>keyword. contains target keyword) CONTACT_KEYWORDS
                   then scan_links w url netloc links (queue @ [next_url])
                   else scan_links w url netloc links queue)"

text \<open>
  The state of a crawl. \<open>fetched\<close> is not a variable of the program: it records the
  URLs handed to \<^verbatim>\<open>_fetch_html\<close>, in order.
\<close>

record crawl =
  visited :: "string set"
  queue :: "string list"
  pages_visited :: int
  fetched :: "string list"

datatype outcome = Return "string option" crawl | Again crawl

definition crawl_iter :: "world \<Rightarrow> string \<Rightarrow> crawl \<Rightarrow> outcome" where
  \<comment> \<open>one turn of the \<^verbatim>\<open>while\<close> loop, entered with a queue that is not empty\<close>
  "crawl_iter w netloc st =
     (let url = hd (queue st);
          st = st\<lparr>queue := tl (queue st)\<rparr>
      in if url \<in> visited st then Again st
         else
           let st = st\<lparr>visited := insert url (visited st), fetched := fetched st @ [url]\<rparr>
           in case fetch_html w url of
                None \<Rightarrow> Again st
              | Some html \<Rightarrow>
                  if html = [] then Again st
                  else
                    let st = st\<lparr>pages_visited := pages_visited st + 1\<rparr>;
                        email = extract_first_valid_email html
                    in if (case email of None \<Rightarrow> False | Some e \<Rightarrow> e \<noteq> [] \<and> is_valid_email e)
                       then Return email st
                       else (case scan_links w url netloc (anchors w html) (queue st) of
                               (Some mail, queue') \<Rightarrow> Return (Some mail) (st\<lparr>queue := queue'\<rparr>)
                             | (None, queue') \<Rightarrow> Again (st\<lparr>queue := queue'\<rparr>)))"

lemma crawl_iter_progress:
  assumes "crawl_iter w netloc st = Again st'" "queue st \<noteq> []"
  shows "pages_visited st' = pages_visited st + 1
         \<or> (pages_visited st' = pages_visited st \<and> length (queue st') < length (queue st))"
  using assms
  by (auto simp: crawl_iter_def Let_def split: if_splits option.splits prod.splits)

function crawl_loop :: "world \<Rightarrow> int \<Rightarrow> string \<Rightarrow> crawl \<Rightarrow> string option \<times> crawl" where
  "crawl_loop w max_pages netloc st =
     (if queue st \<noteq> [] \<and> pages_visited st < max_pages
      then (case crawl_iter w netloc st of
              Return r st' \<Rightarrow> (r, st')
            | Again st' \<Rightarrow> crawl_loop w max_pages netloc st')
      else (None, st))"
  by pat_completeness auto
termination
proof (relation "measures [\<lambda>(w, m, n, st). nat (m - pages_visited st),
                           \<lambda>(w, m, n, st). length (queue st)]")
  show "wf (measures [\<lambda>(w, m, n, st). nat (m - pages_visited st),
                      \<lambda>(w, m, n, st). length (queue st)])"
    by simp
next
  fix w :: world and max_pages :: int and netloc :: string and st st' :: crawl
  assume "queue st \<noteq> [] \<and> pages_visited st < max_pages" "crawl_iter w netloc st = Again st'"
  then show "((w, max_pages, netloc, st'), (w, max_pages, netloc, st))
             \<in> measures [\<lambda>(w, m, n, st). nat (m - pages_visited st),
                          \<lambda>(w, m, n, st). length (queue st)]"
    using crawl_iter_progress [of w netloc st st'] by auto
qed

declare crawl_loop.simps [simp del]

definition crawl_for_email :: "world \<Rightarrow> int \<Rightarrow> string \<Rightarrow> string option \<times> crawl" where
  "crawl_for_email w max_pages base_url =
     crawl_loop w max_pages (url_netloc w base_url)
       \<lparr>visited = {}, queue = [base_url], pages_visited = 0, fetched = []\<rparr>"

definition find_email :: "world \<Rightarrow> int \<Rightarrow> string option \<Rightarrow> string option" where
  "find_email w max_pages website_url =
     (case website_url of
        None \<Rightarrow> None
      | Some url \<Rightarrow>
          if url = [] then None
          else (case normalize_url url of
                  None \<Rightarrow> None
                | Some normalized \<Rightarrow>
                    if normalized = [] then None
                    else fst (crawl_for_email w max_pages normalized)))"

section \<open>models.py and maps\_scraper.py\<close>

record lead =
  name :: string
  org_type :: string
  phone :: string
  email :: string
  address :: string
  city :: string
  state :: string

record search_target =
  query :: string
  target_org_type :: string  \<comment> \<open>\<^verbatim>\<open>SearchTarget.org_type\<close>; the name is taken by the field of a lead\<close>
  max_items :: int

definition MAX_PAGES :: int where
  \<comment> \<open>the scraper builds \<^verbatim>\<open>WebsiteEmailFinder()\<close> with its default \<^verbatim>\<open>max_pages\<close>\<close>
  "MAX_PAGES = 6"

fun lit :: "string \<Rightarrow> rx" where
  \<comment> \<open>a pattern that is literal text\<close>
  "lit [] = Many (\<lambda>c. False) 0"
| "lit [a] = chr_eq a"
| "lit (a # b # cs) = Seq (chr_eq a) (lit (b # cs))"

definition ADDRESS_LABEL :: rx where
  \<comment> \<open>\<^verbatim>\<open>^Address:\s*\<close>\<close>
  "ADDRESS_LABEL = Seq Bos (Seq (lit ''Address:'') (Many py_isspace 0))"

definition PHONE_LABEL :: rx where
  \<comment> \<open>\<^verbatim>\<open>^(Phone:|Call)\s*\<close>\<close>
  "PHONE_LABEL = Seq Bos (Seq (Alt (lit ''Phone:'') (lit ''Call'')) (Many py_isspace 0))"

definition STATE_TOKEN :: rx where
  \<comment> \<open>\<^verbatim>\<open>\b([A-Z]{2})\b\<close>; its group 1 is the whole match\<close>
  "STATE_TOKEN = Seq WordB (Seq (Cls is_upper_az) (Seq (Cls is_upper_az) WordB))"

definition DIGITS :: rx where
  \<comment> \<open>\<^verbatim>\<open>\d+\<close>\<close>
  "DIGITS = Many is_decimal 1"

definition safe_text :: "world \<Rightarrow> string \<Rightarrow> string \<Rightarrow> string" where
  "safe_text w place selector =
     (case inner_text w place selector of None \<Rightarrow> [] | Some t \<Rightarrow> py_strip t)"

fun extract_address_from :: "world \<Rightarrow> string \<Rightarrow> string list \<Rightarrow> string" where
  "extract_address_from w place [] = []"
| "extract_address_from w place (selector # selectors) =
     (let t = safe_text w place selector
      in if t \<noteq> [] then py_strip (re_sub ADDRESS_LABEL [] t)
         else extract_address_from w place selectors)"

definition extract_address :: "world \<Rightarrow> string \<Rightarrow> string" where
  \<open>extract_address w place =
     extract_address_from w place
       [''button[data-item-id="address"]'', ''button[data-tooltip="Copy address"]'',
        ''div[aria-label^="Address:"]'']\<close>

fun extract_phone_from :: "world \<Rightarrow> string \<Rightarrow> string list \<Rightarrow> string" where
  "extract_phone_from w place [] = []"
| "extract_phone_from w place (selector # selectors) =
     (let t = safe_text w place selector
      in if t \<noteq> [] \<and> py_strip (re_sub PHONE_LABEL [] t) \<noteq> []
         then py_strip (re_sub PHONE_LABEL [] t)
         else extract_phone_from w place selectors)"

definition extract_phone :: "world \<Rightarrow> string \<Rightarrow> string" where
  \<open>extract_phone w place =
     extract_phone_from w place
       [''button[data-item-id^="phone:"]'', ''button[data-tooltip="Copy phone number"]'',
        ''div[aria-label^="Phone:"]'']\<close>

fun extract_website_from :: "world \<Rightarrow> string \<Rightarrow> string list \<Rightarrow> string option" where
  "extract_website_from w place [] = None"
| "extract_website_from w place (selector # selectors) =
     (case href_attr w place selector of
        None \<Rightarrow> extract_website_from w place selectors
      | Some href \<Rightarrow>
          if href \<noteq> [] \<and> (url_scheme w href = ''http'' \<or> url_scheme w href = ''https'')
          then Some href
          else extract_website_from w place selectors)"

definition extract_website :: "world \<Rightarrow> string \<Rightarrow> string option" where
  \<open>extract_website w place =
     extract_website_from w place
       [''a[data-item-id="authority"]'', ''a[data-tooltip="Open website"]'']\<close>

definition parse_city_state :: "string \<Rightarrow> string \<times> string" where
  "parse_city_state addr =
     (let parts = map py_strip (filter (\<lambda>p. py_strip p \<noteq> []) (split_on CHR '','' addr))
      in if length parts < 2 then ([], [])
         else
           let state_part = last parts;
               st = (case re_search STATE_TOKEN state_part of None \<Rightarrow> [] | Some g \<Rightarrow> g);
               c = (if length parts \<ge> 3 then parts ! (length parts - 2)
                    else if length parts = 2 then last parts
                    else [])
           in (py_strip (re_sub DIGITS [] c), st))"

datatype failure = Raised

definition parse_place :: "world \<Rightarrow> string \<Rightarrow> string \<Rightarrow> failure + lead option" where
  "parse_place w place_url org =
     (if \<not> page_loads w place_url then Inl Raised
      else
        let nm = safe_text w place_url ''h1.DUwDvf'';
            addr = extract_address w place_url;
            raw_phone = extract_phone w place_url;
            ph = normalize_us_phone raw_phone;
            website = extract_website w place_url;
            em = find_email w MAX_PAGES website
        in if nm = [] \<or> addr = [] \<or> ph = None \<or> ph = Some [] \<or> em = None \<or> em = Some []
           then Inr None
           else
             let (c, s) = parse_city_state addr
             in if c = [] \<or> s \<noteq> ''CA'' then Inr None
                else Inr (Some \<lparr>name = nm, org_type = org, phone = the ph, email = the em,
                                 address = addr, city = c, state = s\<rparr>))"

definition normalize_maps_url :: "string \<Rightarrow> string" where
  "normalize_maps_url url = before_first CHR ''&'' url"

fun add_cards :: "string option list \<Rightarrow> string set \<Rightarrow> string set" where
  \<comment> \<open>the loop over the cards of one round\<close>
  "add_cards [] urls = urls"
| "add_cards (None # hs) urls = add_cards hs urls"
| "add_cards (Some href # hs) urls =
     (if href \<noteq> [] \<and> contains href ''/maps/place/''
      then add_cards hs (insert (normalize_maps_url href) urls)
      else add_cards hs urls)"

function collect_rounds ::
  "world \<Rightarrow> string \<Rightarrow> int \<Rightarrow> nat \<Rightarrow> string set \<Rightarrow> nat \<Rightarrow> nat \<Rightarrow> string set"
where
  \<comment> \<open>\<^verbatim>\<open>for _ in range(120)\<close>, from round \<open>k\<close> on\<close>
  "collect_rounds w q n k urls stagnant_rounds previous_count =
     (if k \<ge> 120 then urls
      else
        let urls = add_cards (cards w q k) urls
        in if int (card urls) \<ge> n then urls
           else
             let stagnant_rounds = (if card urls = previous_count then stagnant_rounds + 1 else 0);
                 previous_count = card urls
             in if stagnant_rounds \<ge> 7 then urls
                else collect_rounds w q n (k + 1) urls stagnant_rounds previous_count)"
  by pat_completeness auto
termination
  by (relation "measure (\<lambda>(w, q, n, k, urls, s, p). 120 - k)") auto

declare collect_rounds.simps [simp del]

definition py_prefix :: "int \<Rightarrow> 'a list \<Rightarrow> 'a list" where
  \<comment> \<open>\<^verbatim>\<open>xs[:n]\<close>; a negative \<open>n\<close> counts from the end\<close>
  "py_prefix n xs = (if n \<ge> 0 then take (nat n) xs else take (length xs - nat (- n)) xs)"

definition collect_place_urls :: "world \<Rightarrow> string \<Rightarrow> int \<Rightarrow> string list" where
  "collect_place_urls w q n =
     (if \<not> search_input w q then []
      else py_prefix n (set_order w (collect_rounds w q n 0 {} 0 0)))"

definition dedup_key :: "lead \<Rightarrow> string" where
  "dedup_key l = py_lower (name l) @ ''|'' @ phone l @ ''|'' @ py_lower (address l)"

fun place_loop ::
  "world \<Rightarrow> string \<Rightarrow> string list \<Rightarrow> lead list \<times> string set \<Rightarrow> lead list \<times> string set"
where
  \<comment> \<open>\<^verbatim>\<open>for place_url in place_urls\<close>, on \<^verbatim>\<open>all_leads\<close> and \<^verbatim>\<open>seen_keys\<close>\<close>
  "place_loop w org [] (all_leads, seen_keys) = (all_leads, seen_keys)"
| "place_loop w org (place_url # place_urls) (all_leads, seen_keys) =
     (case parse_place w place_url org of
        Inl exc \<Rightarrow> place_loop w org place_urls (all_leads, seen_keys)
      | Inr None \<Rightarrow> place_loop w org place_urls (all_leads, seen_keys)
      | Inr (Some l) \<Rightarrow>
          if dedup_key l \<in> seen_keys then place_loop w org place_urls (all_leads, seen_keys)
          else place_loop w org place_urls (all_leads @ [l], insert (dedup_key l) seen_keys))"

fun target_loop ::
  "world \<Rightarrow> search_target list \<Rightarrow> lead list \<times> string set \<Rightarrow> lead list \<times> string set"
where
  \<comment> \<open>\<^verbatim>\<open>for target in targets\<close>\<close>
  "target_loop w [] acc = acc"
| "target_loop w (t # ts) acc =
     target_loop w ts
       (place_loop w (target_org_type t)
          (collect_place_urls w (query t) (max_items t)) acc)"

definition scrape :: "world \<Rightarrow> search_target list \<Rightarrow> lead list" where
  "scrape w targets = fst (target_loop w targets ([], {}))"

section \<open>A sample world\<close>

text \<open>
  One concrete world, on which the properties below are run: a listing page with a name,
  an address and a phone number, and a site whose home page links to three pages of its
  own and to one of another site.
\<close>

definition demo_site :: "string \<Rightarrow> (int \<times> string) option" where
  "demo_site u =
     (if u = ''https://a.org'' then Some (200, ''home'')
      else if u = ''https://a.org/contact'' then Some (200, [])
      else if u = ''https://a.org/about'' then Some (200, [])
      else if u = ''https://a.org/support'' then Some (200, ''write to Office@A.org now'')
      else None)"

definition demo_text :: "string \<Rightarrow> string \<Rightarrow> string option" where
  "demo_text place selector =
     (if selector = ''h1.DUwDvf''
      then (if place = ''https://maps/maps/place/B'' then Some ''FIRST CHURCH''
            else Some ''  First Church '')
      else if selector = ''div[aria-label^='' @ [CHR 0x22] @ ''Address:'' @ [CHR 0x22] @ '']''
      then Some ''Address: 1 Main St, San Jose, CA 95112''
      else if selector = ''div[aria-label^='' @ [CHR 0x22] @ ''Phone:'' @ [CHR 0x22] @ '']''
      then Some ''Phone: (415) 555-2671''
      else None)"

definition demo :: world where
  "demo =
     \<lparr>http_get = demo_site,
      anchors = (\<lambda>html. if html = ''home''
                  then [(''/contact'', ''Contact''), (''/contact'', ''Contact us''),
                        (''/about'', ''Who we are''), (''https://b.org/contact'', ''Partner''),
                        (''/support'', '''')]
                  else []),
      urljoin = (\<lambda>base href. if startswith href ''https://'' then href
                               else ''https://a.org'' @ href),
      url_netloc = (\<lambda>u. takeWhile (\<lambda>c. c \<noteq> CHR ''/'') (drop 8 u)),
      url_path = (\<lambda>u. dropWhile (\<lambda>c. c \<noteq> CHR ''/'') (drop 8 u)),
      url_scheme = (\<lambda>u. takeWhile (\<lambda>c. c \<noteq> CHR '':'') u),
      page_loads = (\<lambda>place. place \<noteq> ''broken''),
      inner_text = demo_text,
      href_attr = (\<lambda>place selector.
                     if selector = ''a[data-item-id='' @ [CHR 0x22] @ ''authority'' @ [CHR 0x22] @ '']''
                     then Some ''a.org''
                     else if place = ''nosite'' then None else Some ''https://a.org''),
      search_input = (\<lambda>q. q \<noteq> ''nothing''),
      cards = (\<lambda>q k. if k = 0
                       then [Some ''https://maps/maps/place/A&x=1'', None, Some ''/other'',
                             Some ''https://maps/maps/place/B'']
                       else [Some ''https://maps/maps/place/A&x=2'',
                             Some ''https://maps/maps/place/B'']),
      set_order = (\<lambda>s. filter (\<lambda>u. u \<in> s)
                            [''https://maps/maps/place/B'', ''https://maps/maps/place/A''])\<rparr>"

definition demo_lead :: lead where
  "demo_lead =
     \<lparr>name = ''First Church'', org_type = ''Church'', phone = ''+14155552671'',
      email = ''office@a.org'', address = ''1 Main St, San Jose, CA 95112'',
      city = ''San Jose'', state = ''CA''\<rparr>"


definition demo_after_home :: crawl where
  "demo_after_home =
     \<lparr>visited = {''https://a.org''},
      queue = [''https://a.org/contact'', ''https://a.org/contact'', ''https://a.org/about'',
               ''https://a.org/support''],
      pages_visited = 1, fetched = [''https://a.org'']\<rparr>"

definition demo_after_contact :: crawl where
  "demo_after_contact =
     \<lparr>visited = {''https://a.org'', ''https://a.org/contact''},
      queue = [''https://a.org/contact'', ''https://a.org/about'', ''https://a.org/support''],
      pages_visited = 1, fetched = [''https://a.org'', ''https://a.org/contact'']\<rparr>"

definition demo_end :: crawl where
  "demo_end =
     \<lparr>visited = {''https://a.org'', ''https://a.org/contact'', ''https://a.org/about'',
                 ''https://a.org/support''},
      queue = [], pages_visited = 2,
      fetched = [''https://a.org'', ''https://a.org/contact'', ''https://a.org/about'',
                 ''https://a.org/support'']\<rparr>"

section \<open>What a crawl keeps true\<close>

definition counts :: "world \<Rightarrow> string \<Rightarrow> bool" where
  \<comment> \<open>the fetch of this URL gives a page with a body, the only kind that is counted\<close>
  "counts w url = (case fetch_html w url of None \<Rightarrow> False | Some html \<Rightarrow> html \<noteq> [])"

definition responds :: "world \<Rightarrow> string \<Rightarrow> bool" where
  \<comment> \<open>the fetch of this URL succeeds: no network error, and a status below 400\<close>
  "responds w url = (fetch_html w url \<noteq> None)"

definition crawl_inv :: "world \<Rightarrow> string \<Rightarrow> crawl \<Rightarrow> bool" where
  "crawl_inv w netloc st =
     (distinct (fetched st) \<and> set (fetched st) \<subseteq> visited st \<and>
      (\<forall>u \<in> set (queue st). url_netloc w u = netloc) \<and>
      (\<forall>u \<in> set (fetched st). url_netloc w u = netloc) \<and>
      pages_visited st = int (length (filter (counts w) (fetched st))))"

section \<open>The run as a sequence of accepted leads\<close>

text \<open>
  The leads \<open>parse_place\<close> accepts during a run, in the order in which the run meets
  them: target by target as supplied, and within a target place by place. An exception
  or a rejected place contributes nothing.
\<close>

definition accepted_at :: "world \<Rightarrow> string \<Rightarrow> string \<Rightarrow> lead list" where
  "accepted_at w org place_url =
     (case parse_place w place_url org of Inr (Some l) \<Rightarrow> [l] | _ \<Rightarrow> [])"

definition accepted_leads :: "world \<Rightarrow> search_target list \<Rightarrow> lead list" where
  "accepted_leads w targets =
     concat (map (\<lambda>t. concat (map (accepted_at w (target_org_type t))
                                 (collect_place_urls w (query t) (max_items t))))
                 targets)"

definition keep_new :: "lead list \<times> string set \<Rightarrow> lead \<Rightarrow> lead list \<times> string set" where
  \<comment> \<open>what the loop body does with one accepted lead\<close>
  "keep_new acc l =
     (if dedup_key l \<in> snd acc then acc else (fst acc @ [l], insert (dedup_key l) (snd acc)))"

definition demo_targets :: "search_target list" where
  "demo_targets =
     [\<lparr>query = ''Churches in California'', target_org_type = ''Church'', max_items = 5\<rparr>,
      \<lparr>query = ''Hospitals in California'', target_org_type = ''Hospital'', max_items = 5\<rparr>]"

section \<open>Email addresses, as the specification words them\<close>


definition char_before :: "char option \<Rightarrow> string \<Rightarrow> char option" where
  \<comment> \<open>the character before the position reached after \<open>pre\<close>, \<open>prev\<close> standing before \<open>pre\<close>\<close>
  "char_before prev pre = (if pre = [] then prev else Some (last pre))"


section \<open>Properties of the validators\<close>

subsection \<open>Phone numbers\<close>

lemma scan_Cls:
  "replace_hits [] (scan (Cls p) adv (prev, s)) = filter (\<lambda>c. \<not> p c) s"
proof (induction s arbitrary: prev adv)
  case Nil
  show ?case by (simp add: scan.simps)
next
  case (Cons x xs)
  show ?case
    by (cases "p x") (simp_all add: scan.simps [of _ _ _ "x # xs"] consumed_def Cons.IH)
qed

lemma re_sub_nondigits: "re_sub (Cls (\<lambda>c. \<not> is_decimal c)) [] v = filter is_decimal v"
  by (simp add: re_sub_def scan_Cls)

lemma is_valid_formatted:
  assumes "length d = 10" "list_all is_decimal d"
  shows "is_valid_us_phone (''+1'' @ d)"
proof -
  have "list_all py_isdigit_ch d"
    using assms(2) by (induction d) (auto simp: is_decimal_def py_isdigit_ch_def)
  moreover have "d \<noteq> []" using assms(1) by auto
  ultimately show ?thesis
    using assms(1) by (simp add: is_valid_us_phone_def startswith_def py_isdigit_def)
qed

text \<open>
  C2. \<open>normalize_us_phone\<close> keeps the decimal digits of its input, drops a leading 1
  when exactly 11 digits remain, and returns \<^verbatim>\<open>+1\<close> followed by the digits exactly when
  10 digits are left, none otherwise (so also for 11 digits that do not start with 1).
  Hence every input whose digits are the 10 digits \<open>d\<close>, or 1 followed by \<open>d\<close>, whatever
  its separators, is mapped to the same value \<^verbatim>\<open>+1\<close>\<open>d\<close>.
\<close>

theorem normalize_us_phone_spec:
  "normalize_us_phone v =
     (let d = filter is_decimal v;
          d' = (if length d = 11 \<and> hd d = CHR ''1'' then tl d else d)
      in if length d' = 10 then Some (''+1'' @ d') else None)
   \<and> (\<forall>d. length d = 10 \<and> (filter is_decimal v = d \<or> filter is_decimal v = CHR ''1'' # d)
          \<longrightarrow> normalize_us_phone v = Some (''+1'' @ d))"
proof -
  define ds where "ds = filter is_decimal v"
  define d' where "d' = (if length ds = 11 \<and> hd ds = CHR ''1'' then tl ds else ds)"
  have dec: "list_all is_decimal ds" by (simp add: ds_def list_all_iff)
  have dec': "list_all is_decimal d'"
    using dec by (cases ds) (auto simp: d'_def)
  have sw: "startswith ds ''1'' = (ds \<noteq> [] \<and> hd ds = CHR ''1'')"
    by (cases ds) (auto simp: startswith_def)
  have len11: "length ds = 11 \<Longrightarrow> ds \<noteq> []" by auto
  have empty: "v = [] \<Longrightarrow> length d' \<noteq> 10" by (simp add: d'_def ds_def)
  have main: "normalize_us_phone v = (if length d' = 10 then Some (''+1'' @ d') else None)"
  proof (cases "v = []")
    case True
    then show ?thesis using empty by (simp add: normalize_us_phone_def)
  next
    case False
    have "drop 1 ds = tl ds" by (simp add: drop_Suc)
    then show ?thesis
      using False is_valid_formatted [of d'] dec' len11
      by (auto simp: normalize_us_phone_def re_sub_nondigits Let_def sw d'_def ds_def [symmetric])
  qed
  have "normalize_us_phone v = Some (''+1'' @ d)"
    if "length d = 10" "ds = d \<or> ds = CHR ''1'' # d" for d
    using that main by (auto simp: d'_def)
  then show ?thesis using main by (simp add: Let_def d'_def ds_def)
qed

theorem normalize_us_phone_spec_witness:
  "length ''4155552671'' = 10
   \<and> filter is_decimal ''+1 (415) 555-2671'' = CHR ''1'' # ''4155552671''
   \<and> normalize_us_phone ''+1 (415) 555-2671'' = Some ''+14155552671''
   \<and> normalize_us_phone ''415.555.2671'' = Some ''+14155552671''
   \<and> normalize_us_phone ''2 (415) 555-2671'' = None"
proof -
  have f1: "filter is_decimal ''+1 (415) 555-2671'' = CHR ''1'' # ''4155552671''" by code_simp
  have f2: "filter is_decimal ''415.555.2671'' = ''4155552671''" by code_simp
  have f3: "filter is_decimal ''2 (415) 555-2671'' = ''24155552671''" by code_simp
  have a: "normalize_us_phone ''+1 (415) 555-2671'' = Some ''+14155552671''"
    using normalize_us_phone_spec [of "''+1 (415) 555-2671''"] f1 by simp
  have b: "normalize_us_phone ''415.555.2671'' = Some ''+14155552671''"
    using normalize_us_phone_spec [of "''415.555.2671''"] f2 by simp
  have c: "normalize_us_phone ''2 (415) 555-2671'' = None"
    using normalize_us_phone_spec [of "''2 (415) 555-2671''"] f3 by simp
  show ?thesis using f1 a b c by simp
qed

subsection \<open>Addresses\<close>

lemma many0_hd:
  "many p 0 (prev, s) \<noteq> [] \<and> snd (hd (many p 0 (prev, s))) = dropWhile p s"
  by (induction s arbitrary: prev) auto

lemma filter_dropWhile_not: "filter (\<lambda>c. \<not> p c) (dropWhile p s) = filter (\<lambda>c. \<not> p c) s"
  by (induction s) auto

lemma scan_Many1:
  "replace_hits [] (scan (Many p 1) False (prev, s)) = filter (\<lambda>c. \<not> p c) s"
proof (induction "length s" arbitrary: s prev rule: less_induct)
  case less
  show ?case
  proof (cases s)
    case Nil
    then show ?thesis by (simp add: scan.simps)
  next
    case (Cons x xs)
    show ?thesis
    proof (cases "p x")
      case False
      then show ?thesis
        using less [of xs "Some x"] Cons by (simp add: scan.simps [of _ _ _ "x # xs"])
    next
      case True
      obtain c cs where m: "many p 0 (Some x, xs) = c # cs"
        using many0_hd [of p "Some x" xs] by (cases "many p 0 (Some x, xs)") auto
      have c: "snd c = dropWhile p xs" using many0_hd [of p "Some x" xs] m by simp
      have len: "length (snd c) < length (x # xs)"
        using c length_dropWhile_le [of p xs] by simp
      have "scan (Many p 1) False (prev, x # xs)
            = Hit (consumed (x # xs) c) # scan (Many p 1) False c"
        using True m len by (simp add: scan.simps [of _ _ _ "x # xs"])
      moreover have "replace_hits [] (scan (Many p 1) False c) = filter (\<lambda>c. \<not> p c) (snd c)"
        using less [of "snd c" "fst c"] len Cons by simp
      ultimately show ?thesis
        using True Cons c by (simp add: filter_dropWhile_not)
    qed
  qed
qed

lemma re_sub_digits: "re_sub DIGITS [] s = filter (\<lambda>c. \<not> is_decimal c) s"
  by (simp only: re_sub_def DIGITS_def scan_Many1)

text \<open>
  C3, as the code has it. An address of exactly two non-blank comma-separated segments
  takes its city from the last segment, the one the state token is searched in: the
  city is that segment, trimmed, with its decimal digits removed and trimmed again.
  So \<^verbatim>\<open>PO Box 5, TX\<close> parses to the city \<^verbatim>\<open>TX\<close> and the state \<^verbatim>\<open>TX\<close>; the first segment
  is not used.
\<close>

theorem parse_city_state_two_segments:
  assumes "filter (\<lambda>p. py_strip p \<noteq> []) (split_on CHR '','' addr) = [a, b]"
  shows "parse_city_state addr =
           (py_strip (filter (\<lambda>c. \<not> is_decimal c) (py_strip b)),
            case re_search STATE_TOKEN (py_strip b) of None \<Rightarrow> [] | Some g \<Rightarrow> g)"
  using assms by (simp add: parse_city_state_def re_sub_digits)

theorem parse_city_state_two_segments_witness:
  "filter (\<lambda>p. py_strip p \<noteq> []) (split_on CHR '','' ''PO Box 5, TX'') = [''PO Box 5'', '' TX'']
   \<and> parse_city_state ''PO Box 5, TX'' = (''TX'', ''TX'')"
proof -
  have seg: "filter (\<lambda>p. py_strip p \<noteq> []) (split_on CHR '','' ''PO Box 5, TX'')
             = [''PO Box 5'', '' TX'']"
    by code_simp
  have strip: "py_strip '' TX'' = ''TX''" by code_simp
  have digits: "py_strip (filter (\<lambda>c. \<not> is_decimal c) ''TX'') = ''TX''" by code_simp
  have tok: "re_search STATE_TOKEN ''TX'' = Some ''TX''" by code_simp
  have p: "parse_city_state ''PO Box 5, TX'' = (''TX'', ''TX'')"
    unfolding parse_city_state_two_segments [OF seg] strip digits tok by simp
  show ?thesis by (rule conjI [OF seg p])
qed

text \<open>
  C3, as stated: the city of \<^verbatim>\<open>PO Box 5, TX\<close> would be \<^verbatim>\<open>PO Box\<close>. It is not.
\<close>

theorem parse_city_state_po_box_counterexample:
  "parse_city_state ''PO Box 5, TX'' \<noteq> (''PO Box'', ''TX'')"
  by code_simp

section \<open>Properties of the scraper\<close>

subsection \<open>The acceptance gate\<close>



section \<open>Properties of the contact crawler\<close>

lemma lower_ch_idem: "lower_ch (lower_ch c) = lower_ch c"
  by (auto simp: lower_ch_def in_range_def ord_def)

lemma py_lower_idem: "py_lower (py_lower s) = py_lower s"
  by (simp add: py_lower_def lower_ch_idem)

lemma first_valid_lower: "first_valid es = Some e \<Longrightarrow> py_lower e = e"
  by (induction es) (auto simp: Let_def py_lower_idem split: if_splits)

lemma extract_first_valid_email_lower:
  "extract_first_valid_email t = Some e \<Longrightarrow> py_lower e = e"
  by (auto simp: extract_first_valid_email_def first_valid_lower split: if_splits)

lemma scan_links_mail:
  "scan_links w url netloc links q = (Some m, q') \<Longrightarrow> is_valid_email m \<and> py_lower m = m"
proof (induction links arbitrary: q)
  case Nil
  then show ?case by simp
next
  case (Cons a links)
  obtain raw_href link_text where a: "a = (raw_href, link_text)" by (cases a)
  show ?case
    using Cons.prems Cons.IH
    by (auto simp: a Let_def mailto_address_def py_lower_idem split: if_splits)
qed

lemma scan_links_netloc:
  "scan_links w url netloc links q = (r, q') \<Longrightarrow>
   \<forall>u \<in> set q. url_netloc w u = netloc \<Longrightarrow> \<forall>u \<in> set q'. url_netloc w u = netloc"
proof (induction links arbitrary: q)
  case Nil
  then show ?case by simp
next
  case (Cons a links)
  obtain raw_href link_text where a: "a = (raw_href, link_text)" by (cases a)
  show ?case
    using Cons.prems Cons.IH [of q]
      Cons.IH [of "q @ [urljoin w url (py_strip raw_href)]"]
    by (auto simp: a Let_def split: if_splits)
qed

lemma crawl_iter_cases:
  obtains
    (seen) "hd (queue st) \<in> visited st"
      "crawl_iter w netloc st = Again (st\<lparr>queue := tl (queue st)\<rparr>)"
  | (skipped) "hd (queue st) \<notin> visited st" "\<not> counts w (hd (queue st))"
      "crawl_iter w netloc st =
         Again (st\<lparr>queue := tl (queue st), visited := insert (hd (queue st)) (visited st),
                   fetched := fetched st @ [hd (queue st)]\<rparr>)"
  | (found) e where "hd (queue st) \<notin> visited st" "counts w (hd (queue st))"
      "is_valid_email e" "py_lower e = e"
      "crawl_iter w netloc st =
         Return (Some e)
           (st\<lparr>queue := tl (queue st), visited := insert (hd (queue st)) (visited st),
               fetched := fetched st @ [hd (queue st)],
               pages_visited := pages_visited st + 1\<rparr>)"
  | (mailto) e html q' where "hd (queue st) \<notin> visited st" "counts w (hd (queue st))"
      "fetch_html w (hd (queue st)) = Some html"
      "scan_links w (hd (queue st)) netloc (anchors w html) (tl (queue st)) = (Some e, q')"
      "is_valid_email e" "py_lower e = e"
      "crawl_iter w netloc st =
         Return (Some e)
           (st\<lparr>queue := q', visited := insert (hd (queue st)) (visited st),
               fetched := fetched st @ [hd (queue st)],
               pages_visited := pages_visited st + 1\<rparr>)"
  | (links) html q' where "hd (queue st) \<notin> visited st" "counts w (hd (queue st))"
      "fetch_html w (hd (queue st)) = Some html"
      "scan_links w (hd (queue st)) netloc (anchors w html) (tl (queue st)) = (None, q')"
      "crawl_iter w netloc st =
         Again (st\<lparr>queue := q', visited := insert (hd (queue st)) (visited st),
                   fetched := fetched st @ [hd (queue st)],
                   pages_visited := pages_visited st + 1\<rparr>)"
proof (cases "hd (queue st) \<in> visited st")
  case True
  then show ?thesis using seen by (simp add: crawl_iter_def Let_def)
next
  case nv: False
  show ?thesis
  proof (cases "counts w (hd (queue st))")
    case False
    then show ?thesis
      using nv skipped
      by (auto simp: crawl_iter_def Let_def counts_def split: option.splits)
  next
    case True
    then obtain html where html: "fetch_html w (hd (queue st)) = Some html" "html \<noteq> []"
      by (auto simp: counts_def split: option.splits)
    show ?thesis
    proof (cases "case extract_first_valid_email html of None \<Rightarrow> False
                  | Some e \<Rightarrow> e \<noteq> [] \<and> is_valid_email e")
      case t: True
      then obtain e where e: "extract_first_valid_email html = Some e" "is_valid_email e"
        by (auto split: option.splits)
      show ?thesis
        using found [of e] nv True html e t extract_first_valid_email_lower [OF e(1)]
        by (simp add: crawl_iter_def Let_def)
    next
      case f: False
      obtain r q' where sl:
        "scan_links w (hd (queue st)) netloc (anchors w html) (tl (queue st)) = (r, q')"
        by (cases "scan_links w (hd (queue st)) netloc (anchors w html) (tl (queue st))")
      show ?thesis
      proof (cases r)
        case (Some m)
        then show ?thesis
          using mailto [of html m q'] nv True html f sl
            scan_links_mail [of w "hd (queue st)" netloc "anchors w html" "tl (queue st)" m q']
          by (simp add: crawl_iter_def Let_def)
      next
        case None
        then show ?thesis
          using links [of html q'] nv True html f sl
          by (simp add: crawl_iter_def Let_def)
      qed
    qed
  qed
qed

lemma crawl_iter_inv:
  assumes "queue st \<noteq> []" "crawl_inv w netloc st"
    and "crawl_iter w netloc st = Again st' \<or> crawl_iter w netloc st = Return r st'"
  shows "crawl_inv w netloc st' \<and> pages_visited st' \<le> pages_visited st + 1"
proof -
  have hd_in: "hd (queue st) \<in> set (queue st)" using assms(1) by simp
  have inv: "distinct (fetched st)" "set (fetched st) \<subseteq> visited st"
    "\<forall>u \<in> set (queue st). url_netloc w u = netloc"
    "\<forall>u \<in> set (fetched st). url_netloc w u = netloc"
    "pages_visited st = int (length (filter (counts w) (fetched st)))"
    using assms(2) by (simp_all add: crawl_inv_def)
  have hd_net: "url_netloc w (hd (queue st)) = netloc"
    using hd_in inv(3) by blast
  have tl_net: "\<forall>u \<in> set (tl (queue st)). url_netloc w u = netloc"
    using inv(3) list.set_sel(2) [OF assms(1)] by blast
  have fresh: "hd (queue st) \<notin> set (fetched st)" if "hd (queue st) \<notin> visited st"
    using that inv(2) by blast
  show ?thesis
  proof (cases rule: crawl_iter_cases [where st = st and w = w and netloc = netloc])
    case seen
    then have "st' = st\<lparr>queue := tl (queue st)\<rparr>" using assms(3) by simp
    then show ?thesis using inv tl_net by (simp add: crawl_inv_def)
  next
    case skipped
    then have "st' = st\<lparr>queue := tl (queue st), visited := insert (hd (queue st)) (visited st),
                        fetched := fetched st @ [hd (queue st)]\<rparr>"
      using assms(3) by simp
    then show ?thesis
      using inv tl_net hd_net fresh [OF skipped(1)] skipped(2)
      by (simp add: crawl_inv_def subset_insertI2)
  next
    case (found e)
    then have "st' = st\<lparr>queue := tl (queue st), visited := insert (hd (queue st)) (visited st),
                        fetched := fetched st @ [hd (queue st)],
                        pages_visited := pages_visited st + 1\<rparr>"
      using assms(3) by simp
    then show ?thesis
      using inv tl_net hd_net fresh [OF found(1)] found(2)
      by (simp add: crawl_inv_def subset_insertI2)
  next
    case (mailto e html q')
    have q': "\<forall>u \<in> set q'. url_netloc w u = netloc"
      using scan_links_netloc [OF mailto(4) tl_net] .
    have "st' = st\<lparr>queue := q', visited := insert (hd (queue st)) (visited st),
                   fetched := fetched st @ [hd (queue st)],
                   pages_visited := pages_visited st + 1\<rparr>"
      using mailto(7) assms(3) by simp
    then show ?thesis
      using inv q' hd_net fresh [OF mailto(1)] mailto(2)
      by (simp add: crawl_inv_def subset_insertI2)
  next
    case (links html q')
    have q': "\<forall>u \<in> set q'. url_netloc w u = netloc"
      using scan_links_netloc [OF links(4) tl_net] .
    have "st' = st\<lparr>queue := q', visited := insert (hd (queue st)) (visited st),
                   fetched := fetched st @ [hd (queue st)],
                   pages_visited := pages_visited st + 1\<rparr>"
      using links(5) assms(3) by simp
    then show ?thesis
      using inv q' hd_net fresh [OF links(1)] links(2)
      by (simp add: crawl_inv_def subset_insertI2)
  qed
qed

lemma crawl_iter_return:
  assumes "crawl_iter w netloc st = Return r st'"
  shows "\<exists>e. r = Some e \<and> is_valid_email e \<and> py_lower e = e"
proof (cases rule: crawl_iter_cases [where st = st and w = w and netloc = netloc])
  case seen
  then show ?thesis using assms by simp
next
  case skipped
  then show ?thesis using assms by simp
next
  case (found e)
  then show ?thesis using assms by simp
next
  case (mailto e html q')
  then show ?thesis using assms by simp
next
  case (links html q')
  then show ?thesis using assms by simp
qed

lemma crawl_loop_inv:
  "crawl_inv w netloc st \<Longrightarrow> pages_visited st \<le> max 0 B \<Longrightarrow>
   crawl_loop w B netloc st = (r, st') \<Longrightarrow>
   crawl_inv w netloc st' \<and> pages_visited st' \<le> max 0 B \<and>
   (\<forall>e. r = Some e \<longrightarrow> is_valid_email e \<and> py_lower e = e)"
proof (induction w B netloc st rule: crawl_loop.induct)
  case (1 w B netloc st)
  show ?case
  proof (cases "queue st \<noteq> [] \<and> pages_visited st < B")
    case False
    then show ?thesis
      using "1.prems" by (auto simp: crawl_loop.simps [of w B netloc st])
  next
    case True
    show ?thesis
    proof (cases "crawl_iter w netloc st")
      case (Return r0 st0)
      then have "r = r0" "st' = st0"
        using "1.prems"(3) True by (simp_all add: crawl_loop.simps [of w B netloc st])
      then show ?thesis
        using crawl_iter_inv [of st w netloc st0 r0] crawl_iter_return [of w netloc st r0 st0]
          True Return "1.prems"(1)
        by auto
    next
      case (Again st0)
      then have "crawl_loop w B netloc st0 = (r, st')"
        using "1.prems"(3) True by (simp add: crawl_loop.simps [of w B netloc st])
      moreover have "crawl_inv w netloc st0 \<and> pages_visited st0 \<le> pages_visited st + 1"
        using crawl_iter_inv [of st w netloc st0 r] True Again "1.prems"(1) by simp
      ultimately show ?thesis
        using "1.IH" [OF True Again] True by auto
    qed
  qed
qed

lemma crawl_for_email_inv:
  assumes "crawl_for_email w B base = (r, st)"
  shows "crawl_inv w (url_netloc w base) st \<and> pages_visited st \<le> max 0 B \<and>
         (\<forall>e. r = Some e \<longrightarrow> is_valid_email e \<and> py_lower e = e)"
proof -
  let ?init = "\<lparr>visited = {}, queue = [base], pages_visited = 0, fetched = []\<rparr>"
  have "crawl_inv w (url_netloc w base) ?init" by (simp add: crawl_inv_def)
  moreover have "pages_visited ?init \<le> max 0 B" by simp
  ultimately show ?thesis
    using crawl_loop_inv [of w "url_netloc w base" ?init B r st] assms
    by (simp add: crawl_for_email_def)
qed

text \<open>
  C5, as the code has it. A page is counted when its fetch gives a body that is not
  empty. When a crawl returns, the counter equals the number of such pages among the
  URLs fetched, and it is at most the budget \<open>B\<close> (at most 0 for a negative budget).
  A fetch that fails (network error, or a status from 400 on) or that gives an empty
  body leaves the counter as it was and adds nothing to the queue: the turn only takes
  the URL off the queue and marks it visited.
\<close>

theorem crawl_page_budget:
  assumes "crawl_for_email w B base = (r, st)"
  shows "pages_visited st = int (length (filter (counts w) (fetched st)))
         \<and> int (length (filter (counts w) (fetched st))) \<le> max 0 B
         \<and> (\<forall>n s. queue s \<noteq> [] \<and> hd (queue s) \<notin> visited s \<and> \<not> counts w (hd (queue s)) \<longrightarrow>
                crawl_iter w n s =
                  Again (s\<lparr>queue := tl (queue s), visited := insert (hd (queue s)) (visited s),
                           fetched := fetched s @ [hd (queue s)]\<rparr>))"
proof -
  have "crawl_iter w n s =
          Again (s\<lparr>queue := tl (queue s), visited := insert (hd (queue s)) (visited s),
                   fetched := fetched s @ [hd (queue s)]\<rparr>)"
    if "queue s \<noteq> []" "hd (queue s) \<notin> visited s" "\<not> counts w (hd (queue s))" for n s
    by (rule crawl_iter_cases [where st = s and w = w and netloc = n]) (use that in simp_all)
  moreover note crawl_for_email_inv [OF assms]
  ultimately show ?thesis by (simp add: crawl_inv_def)
qed

text \<open>
  C6. Every URL a crawl fetches, and every URL still queued when it returns, has the
  network location of the base URL, whatever the pages link to and whatever their
  links' paths and texts say.
\<close>

theorem crawl_same_netloc:
  assumes "crawl_for_email w B base = (r, st)"
  shows "(\<forall>u \<in> set (fetched st). url_netloc w u = url_netloc w base)
         \<and> (\<forall>u \<in> set (queue st). url_netloc w u = url_netloc w base)"
  using crawl_for_email_inv [OF assms] by (simp add: crawl_inv_def)


text \<open>
  C10. An address returned by \<open>find_email\<close>, from the text of a page or from a
  \<^verbatim>\<open>mailto:\<close> link, satisfies \<open>is_valid_email\<close> and is lower case (\<^verbatim>\<open>lower()\<close> leaves it
  unchanged).
\<close>

theorem find_email_valid_lowercase:
  assumes "find_email w B site = Some e"
  shows "is_valid_email e \<and> py_lower e = e"
proof -
  obtain url where "fst (crawl_for_email w B url) = Some e"
    using assms by (auto simp: find_email_def split: option.splits if_splits)
  then obtain st where "crawl_for_email w B url = (Some e, st)"
    by (cases "crawl_for_email w B url") auto
  then show ?thesis using crawl_for_email_inv by blast
qed

lemma demo_crawl_2: "crawl_for_email demo 2 ''https://a.org'' = (Some ''office@a.org'', demo_end)"
  by code_simp

lemma demo_crawl_6: "crawl_for_email demo 6 ''https://a.org'' = (Some ''office@a.org'', demo_end)"
  by code_simp

theorem crawl_page_budget_witness:
  "crawl_for_email demo 2 ''https://a.org'' = (Some ''office@a.org'', demo_end)
   \<and> pages_visited demo_end = int (length (filter (counts demo) (fetched demo_end)))
   \<and> int (length (filter (counts demo) (fetched demo_end))) \<le> max 0 2
   \<and> queue demo_after_home \<noteq> []
   \<and> hd (queue demo_after_home) \<notin> visited demo_after_home
   \<and> \<not> counts demo (hd (queue demo_after_home))
   \<and> crawl_iter demo ''a.org'' demo_after_home = Again demo_after_contact"
proof -
  have h1: "queue demo_after_home \<noteq> []" by code_simp
  have h2: "hd (queue demo_after_home) \<notin> visited demo_after_home" by code_simp
  have h3: "\<not> counts demo (hd (queue demo_after_home))" by code_simp
  have next_state:
    "demo_after_home\<lparr>queue := tl (queue demo_after_home),
       visited := insert (hd (queue demo_after_home)) (visited demo_after_home),
       fetched := fetched demo_after_home @ [hd (queue demo_after_home)]\<rparr> = demo_after_contact"
    by code_simp
  show ?thesis
    using crawl_page_budget [OF demo_crawl_2] h1 h2 h3 demo_crawl_2 next_state by simp
qed

text \<open>
  C5, as stated: at most \<open>B\<close> pages are fetched with success. On the sample site with
  a budget of 2, four fetches succeed (two of them with an empty body, which the loop
  does not count).
\<close>

theorem crawl_page_budget_counterexample:
  "\<not> int (length (filter (responds demo)
             (fetched (snd (crawl_for_email demo 2 ''https://a.org''))))) \<le> 2"
  by code_simp

theorem crawl_same_netloc_witness:
  "crawl_for_email demo 6 ''https://a.org'' = (Some ''office@a.org'', demo_end)
   \<and> list_all (\<lambda>u. url_netloc demo u = url_netloc demo ''https://a.org'') (fetched demo_end)
   \<and> url_netloc demo ''https://b.org/contact'' \<noteq> url_netloc demo ''https://a.org''
   \<and> ''https://b.org/contact'' \<notin> set (fetched demo_end)"
proof -
  have other: "url_netloc demo ''https://b.org/contact'' \<noteq> url_netloc demo ''https://a.org''"
    by code_simp
  show ?thesis
    using crawl_same_netloc [OF demo_crawl_6] demo_crawl_6 other
    by (auto simp: list_all_iff)
qed



theorem find_email_valid_lowercase_witness:
  "find_email demo 6 (Some ''a.org'') = Some ''office@a.org''
   \<and> is_valid_email ''office@a.org'' \<and> py_lower ''office@a.org'' = ''office@a.org''"
proof -
  have f: "find_email demo 6 (Some ''a.org'') = Some ''office@a.org''" by code_simp
  show ?thesis using find_email_valid_lowercase [OF f] f by simp
qed

section \<open>Properties of a run\<close>

lemma keep_new_pair:
  "keep_new (ls, seen) l =
     (if dedup_key l \<in> seen then (ls, seen) else (ls @ [l], insert (dedup_key l) seen))"
  by (simp add: keep_new_def)

lemma place_loop_fold:
  "place_loop w org urls acc = foldl keep_new acc (concat (map (accepted_at w org) urls))"
proof (induction urls arbitrary: acc)
  case Nil
  show ?case by (cases acc) simp
next
  case (Cons u urls)
  obtain ls seen where acc: "acc = (ls, seen)" by (cases acc)
  show ?case
    by (simp add: acc Cons.IH accepted_at_def keep_new_pair split: sum.splits option.splits)
qed

lemma target_loop_fold:
  "target_loop w ts acc = foldl keep_new acc (accepted_leads w ts)"
  by (induction ts arbitrary: acc) (simp_all add: accepted_leads_def place_loop_fold)

lemma keep_new_fold:
  assumes "seen = dedup_key ` set ls" "distinct (map dedup_key ls)"
    and "foldl keep_new (ls, seen) xs = (out, seen')"
  shows "\<exists>new. out = ls @ new \<and> subseq new xs \<and> distinct (map dedup_key out)
           \<and> seen' = dedup_key ` set out
           \<and> dedup_key ` set out = dedup_key ` (set ls \<union> set xs)
           \<and> (\<forall>l \<in> set new. dedup_key l \<notin> seen
                  \<and> find (\<lambda>x. dedup_key x = dedup_key l) xs = Some l)"
  using assms
proof (induction xs arbitrary: ls seen)
  case Nil
  then show ?case by auto
next
  case (Cons x xs)
  show ?case
  proof (cases "dedup_key x \<in> seen")
    case True
    then have "foldl keep_new (ls, seen) xs = (out, seen')"
      using Cons.prems(3) by (simp add: keep_new_pair)
    from Cons.IH [OF Cons.prems(1,2) this]
    obtain new where new: "out = ls @ new" "subseq new xs" "distinct (map dedup_key out)"
      "seen' = dedup_key ` set out" "dedup_key ` set out = dedup_key ` (set ls \<union> set xs)"
      "\<forall>l \<in> set new. dedup_key l \<notin> seen \<and> find (\<lambda>x. dedup_key x = dedup_key l) xs = Some l"
      by blast
    have "\<forall>l \<in> set new. dedup_key l \<notin> seen
            \<and> find (\<lambda>y. dedup_key y = dedup_key l) (x # xs) = Some l"
      using new(6) True by auto
    moreover have "dedup_key ` set out = dedup_key ` (set ls \<union> set (x # xs))"
      using new(5) True Cons.prems(1) by auto
    moreover have "subseq new (x # xs)" using new(2) by (rule list_emb_Cons)
    ultimately show ?thesis
      using new(1,3,4) by (intro exI [of _ new]) simp
  next
    case False
    then have step: "foldl keep_new (ls @ [x], insert (dedup_key x) seen) xs = (out, seen')"
      using Cons.prems(3) by (simp add: keep_new_pair)
    have 1: "insert (dedup_key x) seen = dedup_key ` set (ls @ [x])"
      using Cons.prems(1) by simp
    have 2: "distinct (map dedup_key (ls @ [x]))"
      using Cons.prems(1,2) False by simp
    from Cons.IH [OF 1 2 step]
    obtain new where new: "out = (ls @ [x]) @ new" "subseq new xs"
      "distinct (map dedup_key out)" "seen' = dedup_key ` set out"
      "dedup_key ` set out = dedup_key ` (set (ls @ [x]) \<union> set xs)"
      "\<forall>l \<in> set new. dedup_key l \<notin> insert (dedup_key x) seen
                        \<and> find (\<lambda>y. dedup_key y = dedup_key l) xs = Some l"
      by blast
    have "\<forall>l \<in> set (x # new). dedup_key l \<notin> seen
            \<and> find (\<lambda>y. dedup_key y = dedup_key l) (x # xs) = Some l"
      using new(6) False by auto
    moreover have "dedup_key ` set out = dedup_key ` (set ls \<union> set (x # xs))"
      using new(5) by auto
    moreover have "subseq (x # new) (x # xs)" using new(2) by simp
    ultimately show ?thesis
      using new(1,3,4) by (intro exI [of _ "x # new"]) simp
  qed
qed

text \<open>
  C4. Over one whole run, the leads returned by \<open>scrape\<close> have pairwise different dedup
  keys (lower-cased name, phone and lower-cased address, joined by a bar), so of the
  accepted records with one key at most one is returned. The output is a subsequence
  of the accepted leads in the order the run met them (targets in the order supplied),
  every key that was accepted is represented, and each lead returned is the first
  accepted lead with its key.
\<close>

theorem scrape_first_seen:
  "distinct (map dedup_key (scrape w targets))
   \<and> subseq (scrape w targets) (accepted_leads w targets)
   \<and> dedup_key ` set (scrape w targets) = dedup_key ` set (accepted_leads w targets)
   \<and> (\<forall>l \<in> set (scrape w targets).
         find (\<lambda>x. dedup_key x = dedup_key l) (accepted_leads w targets) = Some l)"
proof -
  obtain out seen' where r: "foldl keep_new ([], {}) (accepted_leads w targets) = (out, seen')"
    by (cases "foldl keep_new ([], {}) (accepted_leads w targets)")
  have s: "scrape w targets = out"
    by (simp add: scrape_def target_loop_fold r)
  show ?thesis
    using keep_new_fold [of "{}" "[]" "accepted_leads w targets" out seen'] r
    unfolding s by auto
qed

text \<open>
  C7. For every query and every positive \<open>max_items\<close>, \<open>collect_place_urls\<close> returns at
  most \<open>max_items\<close> locations, whatever the page shows and in whatever order the set is
  enumerated.
\<close>

theorem collect_place_urls_at_most:
  "0 < n \<Longrightarrow> length (collect_place_urls w q n) \<le> nat n"
  by (simp add: collect_place_urls_def py_prefix_def)


lemma demo_urls_churches:
  "collect_place_urls demo ''Churches in California'' 5
   = [''https://maps/maps/place/B'', ''https://maps/maps/place/A'']"
  by code_simp

lemma demo_urls_hospitals:
  "collect_place_urls demo ''Hospitals in California'' 5
   = [''https://maps/maps/place/B'', ''https://maps/maps/place/A'']"
  by code_simp

lemma demo_place_B_church:
  "parse_place demo ''https://maps/maps/place/B'' ''Church''
   = Inr (Some (demo_lead\<lparr>name := ''FIRST CHURCH''\<rparr>))"
  by code_simp

lemma demo_place_A_church:
  "parse_place demo ''https://maps/maps/place/A'' ''Church'' = Inr (Some demo_lead)"
  by code_simp

lemma demo_place_B_hospital:
  "parse_place demo ''https://maps/maps/place/B'' ''Hospital''
   = Inr (Some (demo_lead\<lparr>name := ''FIRST CHURCH'', org_type := ''Hospital''\<rparr>))"
  by code_simp

lemma demo_place_A_hospital:
  "parse_place demo ''https://maps/maps/place/A'' ''Hospital''
   = Inr (Some (demo_lead\<lparr>org_type := ''Hospital''\<rparr>))"
  by code_simp

lemma demo_keys:
  "dedup_key demo_lead = ''first church|+14155552671|1 main st, san jose, ca 95112''"
  "dedup_key (demo_lead\<lparr>name := ''FIRST CHURCH''\<rparr>) = dedup_key demo_lead"
  "dedup_key (demo_lead\<lparr>name := ''FIRST CHURCH'', org_type := ''Hospital''\<rparr>)
   = dedup_key demo_lead"
  "dedup_key (demo_lead\<lparr>org_type := ''Hospital''\<rparr>) = dedup_key demo_lead"
  by code_simp+

theorem scrape_first_seen_witness:
  "accepted_leads demo demo_targets =
     [demo_lead\<lparr>name := ''FIRST CHURCH''\<rparr>, demo_lead,
      demo_lead\<lparr>name := ''FIRST CHURCH'', org_type := ''Hospital''\<rparr>,
      demo_lead\<lparr>org_type := ''Hospital''\<rparr>]
   \<and> scrape demo demo_targets = [demo_lead\<lparr>name := ''FIRST CHURCH''\<rparr>]
   \<and> dedup_key demo_lead = dedup_key (demo_lead\<lparr>name := ''FIRST CHURCH''\<rparr>)
   \<and> distinct (map dedup_key (scrape demo demo_targets))
   \<and> subseq (scrape demo demo_targets) (accepted_leads demo demo_targets)"
proof -
  have a: "accepted_leads demo demo_targets =
     [demo_lead\<lparr>name := ''FIRST CHURCH''\<rparr>, demo_lead,
      demo_lead\<lparr>name := ''FIRST CHURCH'', org_type := ''Hospital''\<rparr>,
      demo_lead\<lparr>org_type := ''Hospital''\<rparr>]"
    by (simp add: accepted_leads_def accepted_at_def demo_targets_def demo_urls_churches
        demo_urls_hospitals demo_place_B_church demo_place_A_church demo_place_B_hospital
        demo_place_A_hospital)
  have s: "scrape demo demo_targets = [demo_lead\<lparr>name := ''FIRST CHURCH''\<rparr>]"
    by (simp add: scrape_def target_loop_fold a keep_new_pair demo_keys)
  show ?thesis
    using scrape_first_seen [of demo demo_targets] a s demo_keys(2) by simp
qed

theorem collect_place_urls_at_most_witness:
  "(0::int) < 1
   \<and> collect_rounds demo ''Churches in California'' 1 0 {} 0 0
       = {''https://maps/maps/place/A'', ''https://maps/maps/place/B''}
   \<and> collect_place_urls demo ''Churches in California'' 1 = [''https://maps/maps/place/B'']
   \<and> length (collect_place_urls demo ''Churches in California'' 1) \<le> nat 1"
proof -
  have r: "collect_rounds demo ''Churches in California'' 1 0 {} 0 0
           = {''https://maps/maps/place/A'', ''https://maps/maps/place/B''}"
    by code_simp
  have c: "collect_place_urls demo ''Churches in California'' 1 = [''https://maps/maps/place/B'']"
    by code_simp
  show ?thesis
    using collect_place_urls_at_most [of 1 demo "''Churches in California''"] r c by simp
qed

section \<open>Properties of the email pattern\<close>

lemma char_before_Cons: "char_before prev (x # xs) = char_before (Some x) xs"
  by (simp add: char_before_def)


lemma many_sound:
  "c \<in> set (many p n (prev, s)) \<Longrightarrow>
   \<exists>xs. s = xs @ snd c \<and> list_all p xs \<and> n \<le> length xs \<and> fst c = char_before prev xs"
proof (induction s arbitrary: n prev)
  case Nil
  then show ?case by (auto simp: char_before_def split: if_splits)
next
  case (Cons x s)
  from Cons.prems consider
    (more) "p x" "c \<in> set (many p (n - 1) (Some x, s))"
    | (stop) "n = 0" "c = (prev, x # s)"
    by (auto split: if_splits)
  then show ?case
  proof cases
    case more
    from Cons.IH [OF more(2)] obtain xs where
      xs: "s = xs @ snd c" "list_all p xs" "n - 1 \<le> length xs" "fst c = char_before (Some x) xs"
      by blast
    show ?thesis
      using xs more(1) by (intro exI [of _ "x # xs"]) (auto simp: char_before_Cons)
  next
    case stop
    then show ?thesis by (intro exI [of _ "[]"]) (simp add: char_before_def)
  qed
qed

lemma many_complete:
  "list_all p xs \<Longrightarrow> n \<le> length xs \<Longrightarrow>
   (char_before prev xs, rest) \<in> set (many p n (prev, xs @ rest))"
proof (induction xs arbitrary: n prev)
  case Nil
  then show ?case by (cases rest) (simp_all add: char_before_def)
next
  case (Cons x xs)
  have "(char_before (Some x) xs, rest) \<in> set (many p (n - 1) (Some x, xs @ rest))"
    using Cons.IH [of "n - 1" "Some x"] Cons.prems by simp
  then show ?case using Cons.prems by (simp add: char_before_Cons)
qed

lemma cls_iff:
  "c \<in> set (ms (Cls p) (prev, s)) \<longleftrightarrow> (\<exists>x. s = x # snd c \<and> p x \<and> fst c = Some x)"
  by (cases s; cases c) auto



lemma many_iff:
  "c \<in> set (ms (Many p n) (prev, s)) \<longleftrightarrow>
   (\<exists>xs. s = xs @ snd c \<and> list_all p xs \<and> n \<le> length xs \<and> fst c = char_before prev xs)"
proof
  assume "c \<in> set (ms (Many p n) (prev, s))"
  then show "\<exists>xs. s = xs @ snd c \<and> list_all p xs \<and> n \<le> length xs \<and> fst c = char_before prev xs"
    using many_sound [of c p n prev s] by simp
next
  assume "\<exists>xs. s = xs @ snd c \<and> list_all p xs \<and> n \<le> length xs \<and> fst c = char_before prev xs"
  then obtain xs where "s = xs @ snd c" "list_all p xs" "n \<le> length xs"
    "fst c = char_before prev xs" by blast
  then show "c \<in> set (ms (Many p n) (prev, s))"
    using many_complete [of p xs n prev "snd c"] by (cases c) simp
qed

lemma ms_suffix: "c \<in> set (ms r (prev, s)) \<Longrightarrow> \<exists>m. s = m @ snd c"
proof (induction r arbitrary: prev s c)
  case (Cls p)
  then show ?case using cls_iff [of c p prev s] by auto
next
  case (Many p n)
  then show ?case using many_iff [of c p n prev s] by auto
next
  case (Opt r)
  then show ?case by (cases c) auto
next
  case (Alt r1 r2)
  then show ?case by (cases c) auto
next
  case (Seq r1 r2)
  from Seq.prems obtain c1 where c1: "c1 \<in> set (ms r1 (prev, s))" "c \<in> set (ms r2 c1)"
    by auto
  obtain m1 where m1: "s = m1 @ snd c1" using Seq.IH(1) [OF c1(1)] by blast
  obtain m2 where m2: "snd c1 = m2 @ snd c"
    using Seq.IH(2) [of c "fst c1" "snd c1"] c1(2) by auto
  show ?case using m1 m2 by (intro exI [of _ "m1 @ m2"]) simp
next
  case WordB
  then show ?case by (auto split: if_splits)
next
  case Bos
  then show ?case by (auto split: if_splits)
next
  case Eos
  then show ?case by (auto split: if_splits)
qed

















end
